theory Spec2Isabelle
  imports Complex_Main
begin

section \<open>ForceSensorController: the acquisition, resampling and calibration core\<close>

text \<open>
  A shallow embedding of \<^verbatim>\<open>src/boa/boa.py\<close> (\<^verbatim>\<open>LoadCellControl\<close>,
  \<^verbatim>\<open>Calibration\<close>) and of the queue handling of \<^verbatim>\<open>src/boa/scale.py\<close>.

  Python floats are modelled by \<open>real\<close>: every arithmetic operation is exact, and
  only the two explicit calls of \<^verbatim>\<open>round\<close> in \<^verbatim>\<open>_round\<close> round. IEEE doubles
  round every operation as well, so a quotient close to a tie can fall on the other
  side of it, and the computed multiples of an interval are not equidistant (at
  10 Hz, \<^verbatim>\<open>0.1 * 3\<close> is \<^verbatim>\<open>0.30000000000000004\<close>); what is proved below of
  \<^verbatim>\<open>_round\<close> rests on its monotonicity and on rounding to the nearest integer. Python
  integers that count readings are \<open>nat\<close>. Every exception the modelled code can
  raise is a value of \<open>error\<close>. The GUI calls (\<^verbatim>\<open>self.gui...\<close>) only notify the
  display and are left out.
\<close>

datatype error = ZeroDivisionError | IndexError | KeyError | ValueError | AttributeError | TypeError

subsection \<open>Timestamp rounding (\<^verbatim>\<open>LoadCellControl._round\<close>)\<close>

text \<open>Python 3's \<^verbatim>\<open>round(x)\<close> on a float: the nearest integer, a tie going to the
  even neighbour.\<close>

definition py_round :: "real \<Rightarrow> int" where
  "py_round x =
     (let f = \<lfloor>x\<rfloor>; d = x - of_int f
      in if d < 1 / 2 then f else if 1 / 2 < d then f + 1
         else if even f then f else f + 1)"

text \<open>\<^verbatim>\<open>round(x, prec)\<close>: \<open>x\<close> rounded to \<open>prec\<close> decimal places, ties to even.\<close>

definition round_ndigits :: "real \<Rightarrow> nat \<Rightarrow> real" where
  "round_ndigits x prec = of_int (py_round (x * 10 ^ prec)) / 10 ^ prec"

text \<open>\<^verbatim>\<open>round(base * round(float(x) / base), prec)\<close> with the default \<^verbatim>\<open>prec=100\<close>.
  The division raises for \<open>base = 0\<close>.\<close>

definition round_value :: "real \<Rightarrow> real \<Rightarrow> real" where
  "round_value x base = round_ndigits (base * of_int (py_round (x / base))) 100"

definition round_base :: "real \<Rightarrow> real \<Rightarrow> error + real" where
  "round_base x base = (if base = 0 then Inl ZeroDivisionError else Inr (round_value x base))"

subsection \<open>Downsampling (\<^verbatim>\<open>LoadCellControl._downSampleReadings\<close>)\<close>

type_synonym reading = "real \<times> real"
type_synonym bucket = "real \<times> real \<times> nat"

text \<open>The dict \<^verbatim>\<open>d\<close> from rounded times to lists of values, in insertion order:
  \<^verbatim>\<open>if roundedTime in d: d[roundedTime].append(val) else: d[roundedTime] = [val]\<close>.\<close>

fun dict_add :: "(real \<times> real list) list \<Rightarrow> real \<Rightarrow> real \<Rightarrow> (real \<times> real list) list" where
  "dict_add [] rt val = [(rt, [val])]"
| "dict_add ((k, vals) # d) rt val =
     (if k = rt then (k, vals @ [val]) # d else (k, vals) # dict_add d rt val)"

fun group_readings ::
  "(real \<times> real list) list \<Rightarrow> reading list \<Rightarrow> real \<Rightarrow> error + (real \<times> real list) list" where
  "group_readings d [] sampleInterval = Inr d"
| "group_readings d ((time, val) # readings) sampleInterval =
     (case round_base time sampleInterval of
        Inl e \<Rightarrow> Inl e
      | Inr roundedTime \<Rightarrow> group_readings (dict_add d roundedTime val) readings sampleInterval)"

text \<open>\<^verbatim>\<open>avg\<close> divides by the length; the lists of \<^verbatim>\<open>d\<close> are never empty.\<close>

definition avg :: "real list \<Rightarrow> real" where
  "avg vals = sum_list vals / real (length vals)"

definition downSampleReadings :: "reading list \<Rightarrow> real \<Rightarrow> error + bucket list" where
  "downSampleReadings readings sampleInterval =
     (case group_readings [] readings sampleInterval of
        Inl e \<Rightarrow> Inl e
      | Inr d \<Rightarrow> Inr (sort_key fst (map (\<lambda>(rt, vals). (rt, avg vals, length vals)) d)))"

text \<open>The readings a bucket time stands for: those whose rounded time it is; their
  values; and the triple \<^verbatim>\<open>(rt, avg(vals), len(vals))\<close> of that bucket.\<close>

definition assigned :: "reading list \<Rightarrow> real \<Rightarrow> real \<Rightarrow> reading list" where
  "assigned readings sampleInterval rt =
     filter (\<lambda>(t, v). round_value t sampleInterval = rt) readings"

definition vals_at :: "reading list \<Rightarrow> real \<Rightarrow> real \<Rightarrow> real list" where
  "vals_at readings sampleInterval rt = map snd (assigned readings sampleInterval rt)"

definition bucket_at :: "reading list \<Rightarrow> real \<Rightarrow> real \<Rightarrow> bucket" where
  "bucket_at readings sampleInterval rt =
     (rt, avg (vals_at readings sampleInterval rt), length (vals_at readings sampleInterval rt))"

subsection \<open>The bounded queue between a reader and its scale (\<^verbatim>\<open>scale.py\<close>)\<close>

text \<open>
  \<^verbatim>\<open>multiprocessing.Queue(maxsize)\<close> with a positive \<open>maxsize\<close>. \<^verbatim>\<open>get\<close> blocks on
  an empty queue and \<^verbatim>\<open>put\<close> on a full one; a call that blocks is \<open>None\<close>.
\<close>

record 'a queue =
  maxsize :: nat
  items :: "'a list"

definition new_queue :: "nat \<Rightarrow> 'a queue" where
  "new_queue n = \<lparr>maxsize = n, items = []\<rparr>"

definition q_full :: "'a queue \<Rightarrow> bool" where
  "q_full q = (maxsize q \<le> length (items q))"

definition q_empty :: "'a queue \<Rightarrow> bool" where
  "q_empty q = (items q = [])"

definition q_get :: "'a queue \<Rightarrow> ('a \<times> 'a queue) option" where
  "q_get q = (case items q of [] \<Rightarrow> None | x # xs \<Rightarrow> Some (x, q\<lparr>items := xs\<rparr>))"

definition q_put :: "'a queue \<Rightarrow> 'a \<Rightarrow> 'a queue option" where
  "q_put q x = (if q_full q then None else Some (q\<lparr>items := items q @ [x]\<rparr>))"

text \<open>\<^verbatim>\<open>SerialReader.run\<close>, lines 234-238:
  \<^verbatim>\<open>while self.readingsQ.full(): self.readingsQ.get()\<close>, then \<^verbatim>\<open>put(pair)\<close>.\<close>

function throw_out_oldest :: "'a queue \<Rightarrow> 'a queue option" where
  "throw_out_oldest q =
     (if q_full q
      then (case q_get q of None \<Rightarrow> None | Some (x, q') \<Rightarrow> throw_out_oldest q')
      else Some q)"
  by pat_completeness auto
termination
  by (relation "measure (\<lambda>q. length (items q))")
     (auto simp: q_get_def split: list.splits)

definition push :: "'a queue \<Rightarrow> 'a \<Rightarrow> 'a queue option" where
  "push q pair = (case throw_out_oldest q of None \<Rightarrow> None | Some q' \<Rightarrow> q_put q' pair)"

fun push_all :: "'a queue \<Rightarrow> 'a list \<Rightarrow> 'a queue option" where
  "push_all q [] = Some q"
| "push_all q (x # xs) = (case push q x of None \<Rightarrow> None | Some q' \<Rightarrow> push_all q' xs)"

text \<open>\<^verbatim>\<open>SerialScale.read\<close> and \<^verbatim>\<open>BluetoothScale.read\<close>:
  \<^verbatim>\<open>while not self.readingsQ.empty(): readings.append(self.readingsQ.get())\<close>.\<close>

function read_loop :: "'a list \<Rightarrow> 'a queue \<Rightarrow> ('a list \<times> 'a queue) option" where
  "read_loop readings q =
     (if \<not> q_empty q
      then (case q_get q of None \<Rightarrow> None | Some (x, q') \<Rightarrow> read_loop (readings @ [x]) q')
      else Some (readings, q))"
  by pat_completeness auto
termination
  by (relation "measure (\<lambda>(readings, q). length (items q))")
     (auto simp: q_get_def split: list.splits)

definition queue_read :: "'a queue \<Rightarrow> ('a list \<times> 'a queue) option" where
  "queue_read q = read_loop [] q"

subsection \<open>Scales\<close>

datatype scale_obj =
    SerialScale (port: string) (serial_baudrate: int) (readingsQ: "reading queue")
  | BluetoothScale (address: string) (bt_name: string) (readingsQ: "reading queue")

text \<open>\<^verbatim>\<open>__str__\<close> of the two scale classes.\<close>

fun str_scale :: "scale_obj \<Rightarrow> string" where
  "str_scale (SerialScale p br q) = ''Serial Scale at '' @ p"
| "str_scale (BluetoothScale a n q) = ''Bluetooth Scale '' @ n"

text \<open>\<^verbatim>\<open>read()\<close> returns the pending readings and leaves the scale with what the
  drain left in its queue.\<close>

fun scale_read :: "scale_obj \<Rightarrow> (reading list \<times> scale_obj) option" where
  "scale_read (SerialScale p br q) =
     (case queue_read q of None \<Rightarrow> None | Some (rs, q') \<Rightarrow> Some (rs, SerialScale p br q'))"
| "scale_read (BluetoothScale a n q) =
     (case queue_read q of None \<Rightarrow> None | Some (rs, q') \<Rightarrow> Some (rs, BluetoothScale a n q'))"

text \<open>A scale whose pending readings have been taken.\<close>

definition drained :: "scale_obj \<Rightarrow> scale_obj" where
  "drained sc =
     (case sc of
        SerialScale p br q \<Rightarrow> SerialScale p br (q\<lparr>items := []\<rparr>)
      | BluetoothScale a n q \<Rightarrow> BluetoothScale a n (q\<lparr>items := []\<rparr>))"

subsection \<open>Calibration\<close>

text \<open>\<^verbatim>\<open>Calibration.CONVERSIONS\<close>.\<close>

definition CONVERSIONS :: "string \<rightharpoonup> real" where
  "CONVERSIONS = map_of [(''N'', 1), (''kg'', 101971621298 / 1000000000000),
     (''lbs'', 2248089431 / 10000000000)]"

definition convertBetween :: "real \<Rightarrow> string \<Rightarrow> string \<Rightarrow> error + real" where
  "convertBetween x fromUnits toUnits =
     (case CONVERSIONS toUnits of
        None \<Rightarrow> Inl KeyError
      | Some a \<Rightarrow>
          (case CONVERSIONS fromUnits of
             None \<Rightarrow> Inl KeyError
           | Some b \<Rightarrow> Inr (x * (a / b))))"

record Fit =
  fit_m :: real
  fit_b :: real

text \<open>\<^verbatim>\<open>Fit.measured2real\<close>: \<^verbatim>\<open>self._f\<close> is the polynomial \<open>m x + b\<close>.\<close>

definition measured2real :: "Fit \<Rightarrow> real \<Rightarrow> string \<Rightarrow> error + real" where
  "measured2real f inp toUnits = convertBetween (fit_m f * inp + fit_b f) ''N'' toUnits"

text \<open>\<^verbatim>\<open>Fit.real2measured\<close>: \<^verbatim>\<open>1.0 / self.m\<close> raises for a zero slope that is a
  Python number; for a zero \<^verbatim>\<open>numpy.float64\<close>, as \<^verbatim>\<open>polyfit\<close> returns it, the
  division gives an infinity instead, which \<open>real\<close> does not have. Only non-zero
  slopes are used below.\<close>

definition real2measured :: "Fit \<Rightarrow> real \<Rightarrow> string \<Rightarrow> error + real" where
  "real2measured f inp fromUnits =
     (case convertBetween inp fromUnits ''N'' of
        Inl e \<Rightarrow> Inl e
      | Inr newtons \<Rightarrow>
          if fit_m f = 0 then Inl ZeroDivisionError
          else (let m2 = 1 / fit_m f; b2 = - fit_b f / fit_m f in Inr (m2 * newtons + b2)))"

text \<open>
  \<^verbatim>\<open>numpy.polyfit(x, y, 1)\<close> is a library call, not code of the repository: it is a
  parameter of \<open>fitLine\<close>, a function from the two columns to the coefficients
  \<open>(m, b)\<close> or to the exception it raises.
\<close>

type_synonym polyfit = "real list \<Rightarrow> real list \<Rightarrow> error + real \<times> real"

text \<open>\<^verbatim>\<open>Calibration.fitLine\<close>: no fit below two points and when \<^verbatim>\<open>polyfit\<close> raises
  \<^verbatim>\<open>ValueError\<close>; warnings are ignored; any other exception propagates.\<close>

definition fitLine :: "polyfit \<Rightarrow> (real \<times> real) list \<Rightarrow> error + Fit option" where
  "fitLine np_polyfit pts =
     (if length pts < 2 then Inr None
      else (case np_polyfit (map fst pts) (map snd pts) of
              Inl e \<Rightarrow> (if e = ValueError then Inr None else Inl e)
            | Inr (m, b) \<Rightarrow> Inr (Some \<lparr>fit_m = m, fit_b = b\<rparr>)))"

record Calibration =
  pts :: "(real \<times> real) list"
  fit :: "Fit option"

definition hasFit :: "Calibration \<Rightarrow> bool" where
  "hasFit c = (fit c \<noteq> None)"

text \<open>The calls \<^verbatim>\<open>calibration.fit.measured2real(inp, units)\<close> and
  \<^verbatim>\<open>calibration.fit.real2measured(inp, units)\<close>: the conversions are methods of the
  \<^verbatim>\<open>Fit\<close> object, and the attribute lookup on \<^verbatim>\<open>None\<close> raises.\<close>

definition calibration_measured2real :: "Calibration \<Rightarrow> real \<Rightarrow> string \<Rightarrow> error + real" where
  "calibration_measured2real c inp units =
     (case fit c of None \<Rightarrow> Inl AttributeError | Some f \<Rightarrow> measured2real f inp units)"

definition calibration_real2measured :: "Calibration \<Rightarrow> real \<Rightarrow> string \<Rightarrow> error + real" where
  "calibration_real2measured c inp units =
     (case fit c of None \<Rightarrow> Inl AttributeError | Some f \<Rightarrow> real2measured f inp units)"

text \<open>The sum of squared residuals of a line on a point set: what a least-squares fit
  minimises.\<close>

definition sq_residuals :: "(real \<times> real) list \<Rightarrow> real \<Rightarrow> real \<Rightarrow> real" where
  "sq_residuals ps m b = (\<Sum>(x, y) \<leftarrow> ps. (m * x + b - y)\<^sup>2)"

subsection \<open>The application state (\<^verbatim>\<open>LoadCellControl\<close>)\<close>

text \<open>\<^verbatim>\<open>self.scale\<close> is \<^verbatim>\<open>None\<close>, the \<^verbatim>\<open>PhonyScale\<close> held in
  \<^verbatim>\<open>self.randomGenerator\<close>, or a reference to an element of \<^verbatim>\<open>self.scales\<close>, here
  its position in that list.\<close>

datatype selection = NoScale | RandomGenerator | Selected nat

record lcc =
  data :: "(real \<times> real) list"
  numSamplesLastReading :: nat
  scales :: "scale_obj list"
  scale :: selection
  calibration :: Calibration
  sampleRate :: real
  baudrate :: int

text \<open>\<^verbatim>\<open>self.length = 100000\<close>, the \<^verbatim>\<open>maxlen\<close> of the deque \<^verbatim>\<open>self.data\<close>.\<close>

definition lcc_length :: nat where
  "lcc_length = 100000"

text \<open>The state \<^verbatim>\<open>__init__\<close> builds, for the sample rate and baud rate the GUI reports.\<close>

definition init_lcc :: "real \<Rightarrow> int \<Rightarrow> lcc" where
  "init_lcc sr br =
     \<lparr>data = [], numSamplesLastReading = 0, scales = [], scale = NoScale,
      calibration = \<lparr>pts = [], fit = None\<rparr>, sampleRate = sr, baudrate = br\<rparr>"

text \<open>\<^verbatim>\<open>deque.append\<close> on a deque with \<^verbatim>\<open>maxlen\<close>: a full deque drops its oldest
  entry; \<^verbatim>\<open>deque.extend\<close> appends one by one.\<close>

definition deque_append :: "nat \<Rightarrow> 'a list \<Rightarrow> 'a \<Rightarrow> 'a list" where
  "deque_append maxlen d x = (let d' = d @ [x] in if maxlen < length d' then tl d' else d')"

definition deque_extend :: "nat \<Rightarrow> 'a list \<Rightarrow> 'a list \<Rightarrow> 'a list" where
  "deque_extend maxlen d xs = foldl (deque_append maxlen) d xs"

definition clear :: "lcc \<Rightarrow> lcc" where
  "clear s = s\<lparr>numSamplesLastReading := 0, data := []\<rparr>"

text \<open>\<^verbatim>\<open>LoadCellControl.addReadings\<close>.\<close>

definition addReadings :: "lcc \<Rightarrow> reading list \<Rightarrow> error + lcc" where
  "addReadings s readings =
     (if length readings < 1 then Inr s
      else if sampleRate s = 0 then Inl ZeroDivisionError
      else
        (let sampleInterval = 1 / sampleRate s in
         case downSampleReadings readings sampleInterval of
           Inl e \<Rightarrow> Inl e
         | Inr downsampled \<Rightarrow>
             (case downsampled of
                [] \<Rightarrow> Inl IndexError
              | (t, v, n) # rest \<Rightarrow>
                  (let unmerged =
                         s\<lparr>data := deque_extend lcc_length (data s)
                                     (map (\<lambda>(t, v, n). (t, v)) downsampled),
                           numSamplesLastReading := snd (snd (last downsampled))\<rparr>
                   in if length (data s) > 0
                      then
                        (let (lastTime, lastVal) = last (data s) in
                         if \<bar>t - lastTime\<bar> < sampleInterval
                         then
                           (let nslr = numSamplesLastReading s;
                                avgVal = (lastVal * real nslr + v * real n) / real (nslr + n);
                                newestTime = max t lastTime
                            in Inr (s\<lparr>data := deque_extend lcc_length
                                              ((data s)[length (data s) - 1 := (newestTime, avgVal)])
                                              (map (\<lambda>(t, v, n). (t, v)) rest),
                                      numSamplesLastReading := nslr + n\<rparr>))
                         else Inr unmerged)
                      else Inr unmerged))))"

datatype op = AddReadings "reading list" | Clear

fun step :: "lcc \<Rightarrow> op \<Rightarrow> error + lcc" where
  "step s (AddReadings readings) = addReadings s readings"
| "step s Clear = Inr (clear s)"

fun run :: "lcc \<Rightarrow> op list \<Rightarrow> error + lcc" where
  "run s [] = Inr s"
| "run s (x # xs) = (case step s x of Inl e \<Rightarrow> Inl e | Inr s' \<Rightarrow> run s' xs)"

text \<open>The times of the readings an operation brings.\<close>

fun op_times :: "op \<Rightarrow> real list" where
  "op_times (AddReadings readings) = map fst readings"
| "op_times Clear = []"

text \<open>Batches arrive in non-decreasing time order: no reading of a later batch is
  older than a reading of an earlier one.\<close>

definition time_ordered :: "op list \<Rightarrow> bool" where
  "time_ordered ops =
     sorted_wrt (\<lambda>a b. list_all (\<lambda>x. list_all (\<lambda>y. x \<le> y) (op_times b)) (op_times a)) ops"

subsection \<open>Saving a recording (\<^verbatim>\<open>LoadCellControl.saveRecording\<close>)\<close>

text \<open>\<^verbatim>\<open>numpy.searchsorted(a, v)\<close> with the default \<^verbatim>\<open>side='left'\<close>, on an
  ascending array: the first index whose element is not below \<open>v\<close>.\<close>

definition searchsorted :: "real list \<Rightarrow> real \<Rightarrow> nat" where
  "searchsorted a v = length (takeWhile (\<lambda>t. t < v) a)"

datatype csv_row = Header "string list" | Row real real

text \<open>The result is the file written, or \<open>None\<close> when the method returns before
  opening it.\<close>

definition saveRecording :: "lcc \<Rightarrow> string \<Rightarrow> real \<Rightarrow> real \<Rightarrow> (string \<times> csv_row list) option" where
  "saveRecording s filename startTime stopTime =
     (if length (data s) < 1 then None
      else
        (let arr = data s;
             times = map fst arr;
             ilo = searchsorted times startTime;
             ihi = searchsorted times stopTime
         in if ilo = ihi then None
            else
              (let inRange = take (ihi - ilo) (drop ilo arr)
               in Some (filename,
                    Header [''time'', ''raw reading''] # map (\<lambda>(t, v). Row t v) inRange))))"

subsection \<open>Selecting a scale (\<^verbatim>\<open>LoadCellControl.useScale\<close>)\<close>

text \<open>The loop \<^verbatim>\<open>for s in self.scales\<close>: the first scale whose \<^verbatim>\<open>str\<close> is the name
  becomes the selection and is read once, which empties its queue; a \<^verbatim>\<open>read\<close> that
  blocks is \<open>None\<close>.\<close>

fun useScale_for :: "string \<Rightarrow> nat \<Rightarrow> scale_obj list \<Rightarrow> lcc \<Rightarrow> lcc option" where
  "useScale_for name i [] s = Some s"
| "useScale_for name i (sc # rest) s =
     (if name = str_scale sc
      then (case scale_read sc of
              None \<Rightarrow> None
            | Some (rs, sc') \<Rightarrow> Some (s\<lparr>scale := Selected i, scales := (scales s)[i := sc']\<rparr>))
      else useScale_for name (Suc i) rest s)"

definition useScale :: "lcc \<Rightarrow> string \<Rightarrow> lcc option" where
  "useScale s name =
     (if name = ''Select...'' then Some (s\<lparr>scale := NoScale\<rparr>)
      else if name = ''Random Generator'' then Some (s\<lparr>scale := RandomGenerator\<rparr>)
      else useScale_for name 0 (scales s) s)"

section \<open>Rounding\<close>

lemma py_round_le_half: "\<bar>x - of_int (py_round x)\<bar> \<le> 1 / 2"
  unfolding py_round_def Let_def by (auto; linarith)

lemma py_round_of_int: "py_round (of_int n) = n"
  by (simp add: py_round_def)

lemma py_round_near: "\<bar>x - of_int n\<bar> < 1 / 2 \<Longrightarrow> py_round x = n"
proof -
  assume a: "\<bar>x - of_int n\<bar> < 1 / 2"
  show ?thesis
  proof (cases "of_int n \<le> x")
    case True
    with a have "\<lfloor>x\<rfloor> = n" by linarith
    with a True show ?thesis by (simp add: py_round_def Let_def)
  next
    case False
    with a have f: "\<lfloor>x\<rfloor> = n - 1" by linarith
    have "1 / 2 < x - of_int (n - 1)" using a False by simp
    with f show ?thesis by (simp add: py_round_def Let_def)
  qed
qed

lemma py_round_tie_even: "\<bar>x - of_int n\<bar> = 1 / 2 \<Longrightarrow> even n \<Longrightarrow> py_round x = n"
proof -
  assume a: "\<bar>x - of_int n\<bar> = 1 / 2" and e: "even n"
  then consider "x = of_int n + 1/2" | "x = of_int n - 1/2" by (auto simp: abs_if split: if_splits)
  then show ?thesis
  proof cases
    case 1
    then have "\<lfloor>x\<rfloor> = n" by linarith
    with 1 e show ?thesis by (simp add: py_round_def Let_def)
  next
    case 2
    then have f: "\<lfloor>x\<rfloor> = n - 1" by linarith
    with 2 e show ?thesis by (simp add: py_round_def Let_def)
  qed
qed

lemma py_round_tie: "\<bar>x - of_int (py_round x)\<bar> = 1 / 2 \<Longrightarrow> even (py_round x)"
  unfolding py_round_def Let_def
  by (auto split: if_splits)

lemma py_round_mono: "x \<le> y \<Longrightarrow> py_round x \<le> py_round y"
proof -
  assume xy: "x \<le> y"
  have fl: "\<lfloor>x\<rfloor> \<le> \<lfloor>y\<rfloor>" using xy by (rule floor_mono)
  have lo: "\<lfloor>y\<rfloor> \<le> py_round y" by (simp add: py_round_def Let_def)
  have hi: "py_round x \<le> \<lfloor>x\<rfloor> + 1" by (simp add: py_round_def Let_def)
  show ?thesis
  proof (cases "\<lfloor>x\<rfloor> < \<lfloor>y\<rfloor>")
    case True
    with lo hi show ?thesis by linarith
  next
    case False
    with fl have eq: "\<lfloor>x\<rfloor> = \<lfloor>y\<rfloor>" by simp
    with xy show ?thesis by (auto simp: py_round_def Let_def)
  qed
qed

lemma py_round_nearest: "\<bar>x - of_int (py_round x)\<bar> \<le> \<bar>x - of_int n\<bar>"
proof (cases "n = py_round x")
  case True then show ?thesis by simp
next
  case False
  then have "1 \<le> \<bar>n - py_round x\<bar>" by linarith
  then have "(1::real) \<le> \<bar>of_int n - of_int (py_round x)\<bar>"
    by (metis of_int_1 of_int_abs of_int_diff of_int_le_iff)
  with py_round_le_half[of x] show ?thesis by linarith
qed


lemma round_value_idem:
  assumes "0 < base"
  shows "round_value (round_value t base) base = round_value t base"
proof -
  define P :: real where "P = 10 ^ 100"
  define a where "a = base * P"
  define k where "k = py_round (t / base)"
  define N where "N = py_round (a * of_int k)"
  define k' where "k' = py_round (of_int N / a)"
  have P: "0 < P" by (simp add: P_def)
  have a: "0 < a" using assms P by (simp add: a_def)
  have y: "round_value t base = of_int N / P"
    by (simp add: round_value_def round_ndigits_def N_def k_def a_def P_def mult_ac)
  have yb: "of_int N / P / base = of_int N / a"
    by (simp add: a_def mult.commute)
  have h1: "\<bar>a * of_int k - of_int N\<bar> \<le> 1 / 2"
    unfolding N_def by (rule py_round_le_half)
  have "\<bar>of_int N / a - of_int k'\<bar> \<le> \<bar>of_int N / a - of_int k\<bar>"
    unfolding k'_def by (rule py_round_nearest)
  then have "a * \<bar>of_int N / a - of_int k'\<bar> \<le> a * \<bar>of_int N / a - of_int k\<bar>"
    using a by (simp only: mult_le_cancel_left_pos)
  moreover have "a * \<bar>of_int N / a - of_int j\<bar> = \<bar>a * of_int j - of_int N\<bar>" for j :: int
  proof -
    have "a * \<bar>of_int N / a - of_int j\<bar> = \<bar>a * (of_int N / a - of_int j)\<bar>"
      using a by (simp add: abs_mult)
    also have "a * (of_int N / a - of_int j) = of_int N - a * of_int j"
      using a by (simp add: right_diff_distrib)
    finally show ?thesis by (simp add: abs_minus_commute)
  qed
  ultimately have h2: "\<bar>a * of_int k' - of_int N\<bar> \<le> \<bar>a * of_int k - of_int N\<bar>"
    by simp
  have N': "py_round (a * of_int k') = N"
  proof (cases "\<bar>a * of_int k' - of_int N\<bar> < 1 / 2")
    case True
    then show ?thesis by (rule py_round_near)
  next
    case False
    with h1 h2 have e1: "\<bar>a * of_int k' - of_int N\<bar> = 1 / 2"
      and e2: "\<bar>a * of_int k - of_int (py_round (a * of_int k))\<bar> = 1 / 2"
      by (simp_all add: N_def)
    from e2 have "even N" unfolding N_def by (rule py_round_tie)
    with e1 show ?thesis by (rule py_round_tie_even)
  qed
  have "round_value (of_int N / P) base = of_int (py_round (a * of_int k')) / P"
    by (simp add: round_value_def round_ndigits_def k'_def yb a_def P_def mult_ac)
  with N' y show ?thesis by simp
qed

text \<open>
  Claim C9 (idempotence of timestamp rounding): for every interval \<open>base > 0\<close> and
  every time \<open>t\<close>, \<^verbatim>\<open>_round(t, base)\<close> returns a value, and rounding that value
  again to the same interval returns it unchanged.
\<close>

theorem round_base_idempotent:
  "0 < base \<Longrightarrow> \<exists>y. round_base t base = Inr y \<and> round_base y base = Inr y"
  by (simp add: round_base_def round_value_idem)

theorem round_base_idempotent_witness:
  "(0::real) < 1 / 5 \<and> round_base (21 / 100) (1 / 5) = Inr (1 / 5)
     \<and> round_base (1 / 5) (1 / 5) = Inr (1 / 5)"
  using round_base_idempotent [of "1 / 5" "21 / 100"]
  by (simp add: round_base_def round_value_def round_ndigits_def py_round_def Let_def)

section \<open>The bounded sample queue\<close>

declare throw_out_oldest.simps [simp del]
declare read_loop.simps [simp del]

lemma throw_out_oldest_eq:
  "0 < maxsize q \<Longrightarrow>
   throw_out_oldest q = Some (q\<lparr>items := drop (Suc (length (items q)) - maxsize q) (items q)\<rparr>)"
proof (induction q rule: throw_out_oldest.induct)
  case (1 q)
  show ?case
  proof (cases "q_full q")
    case False
    then have "Suc (length (items q)) - maxsize q = 0" by (simp add: q_full_def)
    with False show ?thesis by (subst throw_out_oldest.simps) simp
  next
    case True
    with "1.prems" obtain x xs where xs: "items q = x # xs"
      by (cases "items q") (auto simp: q_full_def)
    then have g: "q_get q = Some (x, q\<lparr>items := xs\<rparr>)" by (simp add: q_get_def)
    have "throw_out_oldest (q\<lparr>items := xs\<rparr>) =
        Some (q\<lparr>items := drop (Suc (length xs) - maxsize q) xs\<rparr>)"
      using "1.IH"[OF True g refl] "1.prems" by simp
    moreover have "drop (Suc (length (items q)) - maxsize q) (items q) = drop (Suc (length xs) - maxsize q) xs"
      using True xs by (simp add: q_full_def Suc_diff_le)
    ultimately show ?thesis using True g by (subst throw_out_oldest.simps) simp
  qed
qed

lemma push_eq:
  assumes "0 < maxsize q"
  shows "push q x = Some (q\<lparr>items := drop (length (items q @ [x]) - maxsize q) (items q @ [x])\<rparr>)"
proof -
  define q' where "q' = q\<lparr>items := drop (Suc (length (items q)) - maxsize q) (items q)\<rparr>"
  have t: "throw_out_oldest q = Some q'"
    unfolding q'_def using assms by (rule throw_out_oldest_eq)
  have nf: "\<not> q_full q'" using assms by (auto simp: q'_def q_full_def)
  have "push q x = Some (q'\<lparr>items := items q' @ [x]\<rparr>)"
    using t nf by (simp add: push_def q_put_def)
  moreover have "items q' @ [x] = drop (length (items q @ [x]) - maxsize q) (items q @ [x])"
    using assms by (auto simp: q'_def)
  ultimately show ?thesis by (simp add: q'_def)
qed

lemma drop_drop_snoc:
  "drop (length (drop (length ys - c) ys @ [x]) - c) (drop (length ys - c) ys @ [x])
     = drop (length (ys @ [x]) - c) (ys @ [x])"
  by (cases "c \<le> length ys") (auto simp: Suc_diff_le)

lemma push_all_eq:
  "0 < maxsize q \<Longrightarrow>
   push_all (q\<lparr>items := drop (length ys - maxsize q) ys\<rparr>) xs
     = Some (q\<lparr>items := drop (length (ys @ xs) - maxsize q) (ys @ xs)\<rparr>)"
proof (induction xs arbitrary: ys)
  case Nil
  then show ?case by simp
next
  case (Cons x xs)
  define q1 where "q1 = q\<lparr>items := drop (length ys - maxsize q) ys\<rparr>"
  have m: "maxsize q1 = maxsize q" and i: "items q1 = drop (length ys - maxsize q) ys"
    by (simp_all add: q1_def)
  have "push q1 x = Some (q1\<lparr>items := drop (length (ys @ [x]) - maxsize q) (ys @ [x])\<rparr>)"
    using push_eq[of q1 x] Cons.prems drop_drop_snoc[of ys "maxsize q" x]
    by (simp only: m i)
  also have "q1\<lparr>items := drop (length (ys @ [x]) - maxsize q) (ys @ [x])\<rparr>
      = q\<lparr>items := drop (length (ys @ [x]) - maxsize q) (ys @ [x])\<rparr>"
    by (simp add: q1_def)
  finally have p: "push q1 x = Some (q\<lparr>items := drop (length (ys @ [x]) - maxsize q) (ys @ [x])\<rparr>)" .
  have "push_all q1 (x # xs) = push_all (q\<lparr>items := drop (length (ys @ [x]) - maxsize q) (ys @ [x])\<rparr>) xs"
    by (simp add: p)
  also have "\<dots> = Some (q\<lparr>items := drop (length ((ys @ [x]) @ xs) - maxsize q) ((ys @ [x]) @ xs)\<rparr>)"
    using Cons.prems by (rule Cons.IH)
  finally show ?case by (simp add: q1_def)
qed

lemma read_loop_eq: "read_loop acc q = Some (acc @ items q, q\<lparr>items := []\<rparr>)"
proof (induction acc q rule: read_loop.induct)
  case (1 readings q)
  show ?case
  proof (cases "items q")
    case Nil
    then show ?thesis by (subst read_loop.simps) (simp add: q_empty_def)
  next
    case (Cons x xs)
    then have g: "q_get q = Some (x, q\<lparr>items := xs\<rparr>)" by (simp add: q_get_def)
    have ne: "\<not> q_empty q" using Cons by (simp add: q_empty_def)
    from "1.IH"[OF ne g refl] ne g Cons show ?thesis
      by (subst read_loop.simps) simp
  qed
qed

text \<open>
  Claim C4 (bounded queue overflow policy): on a queue of capacity \<open>c > 0\<close> the
  reader's push (discard the oldest item while the queue is full, then put) never
  blocks, and after \<open>c + k\<close> pushes with \<open>k > 0\<close> onto the empty queue a drain returns
  exactly the last \<open>c\<close> items pushed, in the order they were pushed, and leaves the
  queue empty.
\<close>

theorem queue_overflow:
  assumes "0 < c" and "0 < k" and "length xs = c + k"
  shows "(\<forall>q x. maxsize q = c \<longrightarrow> push q x \<noteq> None) \<and>
         (\<exists>q. push_all (new_queue c) xs = Some q \<and>
              queue_read q = Some (drop k xs, q\<lparr>items := []\<rparr>))"
proof -
  have "push_all (new_queue c) xs = Some (new_queue c\<lparr>items := drop (length xs - c) xs\<rparr>)"
    using push_all_eq[of "new_queue c" "[]" xs] assms(1)
    by (simp add: new_queue_def)
  moreover have "length xs - c = k" using assms by simp
  ultimately show ?thesis using assms(1)
    by (auto simp: push_eq queue_read_def read_loop_eq)
qed

theorem queue_overflow_witness:
  "(0::nat) < 2 \<and> (0::nat) < 1 \<and> length [10, 20, 30 :: nat] = 2 + 1 \<and>
   push (new_queue 2\<lparr>items := [10, 20 :: nat]\<rparr>) 30 \<noteq> None \<and>
   push_all (new_queue 2) [10, 20, 30 :: nat] = Some (new_queue 2\<lparr>items := [20, 30]\<rparr>) \<and>
   queue_read (new_queue 2\<lparr>items := [20, 30 :: nat]\<rparr>) = Some ([20, 30], new_queue 2)"
  using queue_overflow [of 2 1 "[10, 20, 30 :: nat]"]
  by (simp add: new_queue_def push_def throw_out_oldest.simps q_full_def q_get_def q_put_def
        queue_read_def read_loop.simps q_empty_def)

section \<open>Selecting a scale\<close>

lemma queue_read_eq: "queue_read q = Some (items q, q\<lparr>items := []\<rparr>)"
  by (simp add: queue_read_def read_loop_eq)

lemma scale_read_eq: "scale_read sc = Some (items (readingsQ sc), drained sc)"
  by (cases sc) (simp_all add: queue_read_eq drained_def)

lemma useScale_for_unknown:
  "name \<notin> str_scale ` set xs \<Longrightarrow> useScale_for name k xs s = Some s"
  by (induction xs arbitrary: k) auto

lemma useScale_for_known:
  "name \<in> str_scale ` set xs \<Longrightarrow>
   \<exists>i<length xs. str_scale (xs ! i) = name \<and> (\<forall>j<i. str_scale (xs ! j) \<noteq> name) \<and>
     useScale_for name k xs s =
       Some (s\<lparr>scale := Selected (k + i), scales := (scales s)[k + i := drained (xs ! i)]\<rparr>)"
proof (induction xs arbitrary: k)
  case Nil
  then show ?case by simp
next
  case (Cons sc xs)
  show ?case
  proof (cases "name = str_scale sc")
    case True
    then have "useScale_for name k (sc # xs) s =
        Some (s\<lparr>scale := Selected (k + 0), scales := (scales s)[k + 0 := drained ((sc # xs) ! 0)]\<rparr>)"
      by (simp add: scale_read_eq)
    with True show ?thesis by (intro exI[of _ 0]) simp
  next
    case False
    with Cons.prems have "name \<in> str_scale ` set xs" by auto
    from Cons.IH[OF this, of "Suc k"] obtain i where i: "i < length xs"
      "str_scale (xs ! i) = name" "\<forall>j<i. str_scale (xs ! j) \<noteq> name"
      "useScale_for name (Suc k) xs s =
         Some (s\<lparr>scale := Selected (Suc k + i), scales := (scales s)[Suc k + i := drained (xs ! i)]\<rparr>)"
      by blast
    have "\<forall>j<Suc i. str_scale ((sc # xs) ! j) \<noteq> name"
      using i(3) False by (auto simp: less_Suc_eq_0_disj)
    with i False show ?thesis by (intro exI[of _ "Suc i"]) simp
  qed
qed

text \<open>
  Claim C10 (selecting a scale): \<^verbatim>\<open>useScale\<close> with a name that is neither
  \<^verbatim>\<open>"Select..."\<close> nor \<^verbatim>\<open>"Random Generator"\<close> nor the display name of a known scale
  changes nothing in the state; \<^verbatim>\<open>useScale("Select...")\<close> clears the selection and
  nothing else; and the display name of a known scale selects the first scale of
  that name and drains its queue, leaving the rest of the state (the Series Buffer,
  \<^verbatim>\<open>numSamplesLastReading\<close>, the calibration, the other scales) as it was.
\<close>

theorem useScale_frame:
  "(name \<noteq> ''Select...'' \<and> name \<noteq> ''Random Generator'' \<and> name \<notin> str_scale ` set (scales s)
      \<longrightarrow> useScale s name = Some s) \<and>
   useScale s ''Select...'' = Some (s\<lparr>scale := NoScale\<rparr>) \<and>
   (name \<noteq> ''Select...'' \<and> name \<noteq> ''Random Generator'' \<and> name \<in> str_scale ` set (scales s)
      \<longrightarrow> (\<exists>i<length (scales s).
             str_scale (scales s ! i) = name \<and> (\<forall>j<i. str_scale (scales s ! j) \<noteq> name) \<and>
             items (readingsQ (drained (scales s ! i))) = [] \<and>
             useScale s name =
               Some (s\<lparr>scale := Selected i, scales := (scales s)[i := drained (scales s ! i)]\<rparr>)))"
proof (intro conjI impI)
  assume "name \<noteq> ''Select...'' \<and> name \<noteq> ''Random Generator'' \<and> name \<notin> str_scale ` set (scales s)"
  then show "useScale s name = Some s"
    by (simp add: useScale_def useScale_for_unknown)
next
  show "useScale s ''Select...'' = Some (s\<lparr>scale := NoScale\<rparr>)"
    by (simp add: useScale_def)
next
  assume a: "name \<noteq> ''Select...'' \<and> name \<noteq> ''Random Generator'' \<and> name \<in> str_scale ` set (scales s)"
  have d: "items (readingsQ (drained sc)) = []" for sc
    by (cases sc) (simp_all add: drained_def)
  from a useScale_for_known[of name "scales s" 0 s] d
  show "\<exists>i<length (scales s).
          str_scale (scales s ! i) = name \<and> (\<forall>j<i. str_scale (scales s ! j) \<noteq> name) \<and>
          items (readingsQ (drained (scales s ! i))) = [] \<and>
          useScale s name =
            Some (s\<lparr>scale := Selected i, scales := (scales s)[i := drained (scales s ! i)]\<rparr>)"
    by (simp add: useScale_def)
qed

theorem useScale_frame_witness:
  "useScale ((init_lcc 5 9600)\<lparr>scales := [SerialScale ''COM1'' 9600 (new_queue 3),
        BluetoothScale ''00:11'' ''HC-05'' ((new_queue 3)\<lparr>items := [(0, 7)]\<rparr>)]\<rparr>) ''Bluetooth Scale HC-05''
     = Some ((init_lcc 5 9600)\<lparr>scales := [SerialScale ''COM1'' 9600 (new_queue 3),
        BluetoothScale ''00:11'' ''HC-05'' (new_queue 3)], scale := Selected 1\<rparr>) \<and>
   useScale ((init_lcc 5 9600)\<lparr>scales := [SerialScale ''COM1'' 9600 (new_queue 3),
        BluetoothScale ''00:11'' ''HC-05'' ((new_queue 3)\<lparr>items := [(0, 7)]\<rparr>)]\<rparr>) ''Phony Scale''
     = Some ((init_lcc 5 9600)\<lparr>scales := [SerialScale ''COM1'' 9600 (new_queue 3),
        BluetoothScale ''00:11'' ''HC-05'' ((new_queue 3)\<lparr>items := [(0, 7)]\<rparr>)]\<rparr>)"
  using useScale_frame [of "''Bluetooth Scale HC-05''"
    "(init_lcc 5 9600)\<lparr>scales := [SerialScale ''COM1'' 9600 (new_queue 3),
        BluetoothScale ''00:11'' ''HC-05'' ((new_queue 3)\<lparr>items := [(0, 7)]\<rparr>)]\<rparr>"]
    useScale_frame [of "''Phony Scale''"
    "(init_lcc 5 9600)\<lparr>scales := [SerialScale ''COM1'' 9600 (new_queue 3),
        BluetoothScale ''00:11'' ''HC-05'' ((new_queue 3)\<lparr>items := [(0, 7)]\<rparr>)]\<rparr>"]
  by (auto simp: init_lcc_def new_queue_def drained_def less_Suc_eq_0_disj)

section \<open>Saving a recording\<close>

lemma searchsorted_mono: "a \<le> b \<Longrightarrow> searchsorted ts a \<le> searchsorted ts b"
  unfolding searchsorted_def by (induction ts) auto

lemma searchsorted_le_length: "searchsorted ts v \<le> length ts"
  unfolding searchsorted_def by (rule length_takeWhile_le)

lemma searchsorted_sorted_ge:
  "sorted (map fst xs) \<Longrightarrow> \<forall>p\<in>set xs. a \<le> fst p \<Longrightarrow> searchsorted (map fst xs) a = 0"
  unfolding searchsorted_def by (cases xs) auto

lemma slice_sorted:
  "sorted (map fst xs) \<Longrightarrow> a \<le> b \<Longrightarrow>
   take (searchsorted (map fst xs) b - searchsorted (map fst xs) a)
        (drop (searchsorted (map fst xs) a) xs)
     = filter (\<lambda>p. a \<le> fst p \<and> fst p < b) xs"
proof (induction xs)
  case Nil
  then show ?case by simp
next
  case (Cons x xs)
  then have srt: "sorted (map fst xs)" and ge: "\<forall>p\<in>set xs. fst x \<le> fst p" by auto
  show ?case
  proof (cases "fst x < a")
    case True
    with Cons.prems have "fst x < b" by simp
    with True Cons.IH[OF srt Cons.prems(2)] show ?thesis
      by (simp add: searchsorted_def)
  next
    case False
    then have ax: "a \<le> fst x" by simp
    with ge have gea: "\<forall>p\<in>set xs. a \<le> fst p" by auto
    have z: "searchsorted (map fst xs) a = 0"
      using srt gea by (rule searchsorted_sorted_ge)
    show ?thesis
    proof (cases "fst x < b")
      case True
      with False Cons.IH[OF srt Cons.prems(2)] z show ?thesis
        by (simp add: searchsorted_def)
    next
      case nb: False
      with ge have "\<forall>p\<in>set xs. \<not> fst p < b" by auto
      then have "filter (\<lambda>p. a \<le> fst p \<and> fst p < b) xs = []"
        by (simp add: filter_empty_conv)
      with False nb show ?thesis by (simp add: searchsorted_def)
    qed
  qed
qed

text \<open>
  Claim C6, as the code has it: for a non-empty, time-ascending Series Buffer and
  \<open>startTime \<le> stopTime\<close>, \<^verbatim>\<open>saveRecording\<close> writes the header row followed by
  one row per sample whose time \<open>t\<close> has \<open>startTime \<le> t < stopTime\<close>, in buffer
  order, and nothing else; when no sample lies in that half-open range it returns
  before opening the file.
\<close>

theorem saveRecording_range:
  assumes "data s \<noteq> []" and "sorted (map fst (data s))" and "startTime \<le> stopTime"
  shows "saveRecording s filename startTime stopTime =
     (let inRange = filter (\<lambda>(t, v). startTime \<le> t \<and> t < stopTime) (data s)
      in if inRange = [] then None
         else Some (filename, Header [''time'', ''raw reading''] # map (\<lambda>(t, v). Row t v) inRange))"
proof -
  define ilo where "ilo = searchsorted (map fst (data s)) startTime"
  define ihi where "ihi = searchsorted (map fst (data s)) stopTime"
  define inRange where "inRange = take (ihi - ilo) (drop ilo (data s))"
  have le: "ilo \<le> ihi" unfolding ilo_def ihi_def using assms(3) by (rule searchsorted_mono)
  have hi: "ihi \<le> length (data s)"
    using searchsorted_le_length[of "map fst (data s)" stopTime] by (simp add: ihi_def)
  have f: "inRange = filter (\<lambda>(t, v). startTime \<le> t \<and> t < stopTime) (data s)"
    using slice_sorted[OF assms(2,3)]
    by (simp add: inRange_def ilo_def ihi_def case_prod_unfold)
  have "length inRange = ihi - ilo" using le hi by (simp add: inRange_def)
  then have e: "inRange = [] \<longleftrightarrow> ilo = ihi" using le by (cases inRange) auto
  have "saveRecording s filename startTime stopTime =
      (if ilo = ihi then None
       else Some (filename, Header [''time'', ''raw reading''] # map (\<lambda>(t, v). Row t v) inRange))"
    using assms(1) by (simp add: saveRecording_def Let_def ilo_def ihi_def inRange_def)
  then show ?thesis using e f by (simp add: Let_def)
qed

theorem saveRecording_range_witness:
  "saveRecording ((init_lcc 5 9600)\<lparr>data := [(0, 1), (1, 2), (2, 3)]\<rparr>) ''rec.csv'' 1 2
     = Some (''rec.csv'', [Header [''time'', ''raw reading''], Row 1 2]) \<and>
   saveRecording ((init_lcc 5 9600)\<lparr>data := [(0, 1), (1, 2), (2, 3)]\<rparr>) ''rec.csv'' 2 2 = None"
  using saveRecording_range [of "(init_lcc 5 9600)\<lparr>data := [(0, 1), (1, 2), (2, 3)]\<rparr>" 1 2 "''rec.csv''"]
    saveRecording_range [of "(init_lcc 5 9600)\<lparr>data := [(0, 1), (1, 2), (2, 3)]\<rparr>" 2 2 "''rec.csv''"]
  by (simp add: init_lcc_def)

text \<open>The sample at \<open>stopTime\<close> itself is left out, so the inclusive range of the
  claim is not what is written.\<close>

theorem saveRecording_inclusive_counterexample:
  "saveRecording ((init_lcc 5 9600)\<lparr>data := [(0, 1), (1, 2), (2, 3)]\<rparr>) ''rec.csv'' 0 2
     = Some (''rec.csv'', [Header [''time'', ''raw reading''], Row 0 1, Row 1 2]) \<and>
   saveRecording ((init_lcc 5 9600)\<lparr>data := [(0, 1), (1, 2), (2, 3)]\<rparr>) ''rec.csv'' 0 2
     \<noteq> Some (''rec.csv'', Header [''time'', ''raw reading''] #
          map (\<lambda>(t, v). Row t v)
            (filter (\<lambda>(t, v). 0 \<le> t \<and> t \<le> 2) [(0, 1), (1, 2), (2, 3)]))"
  by (simp add: saveRecording_def searchsorted_def init_lcc_def)

section \<open>Calibration\<close>

lemma CONVERSIONS_pos: "CONVERSIONS u = Some a \<Longrightarrow> 0 < a"
  by (auto simp: CONVERSIONS_def split: if_splits)

lemma CONVERSIONS_N: "CONVERSIONS ''N'' = Some 1"
  by (simp add: CONVERSIONS_def)

lemma round_trip:
  assumes "fit_m f \<noteq> 0" and "CONVERSIONS u = Some a"
  shows "measured2real f x u = Inr ((fit_m f * x + fit_b f) * (a / 1)) \<and>
         real2measured f ((fit_m f * x + fit_b f) * (a / 1)) u = Inr x"
proof -
  have a: "a \<noteq> 0" using CONVERSIONS_pos[OF assms(2)] by simp
  have "(fit_m f * x + fit_b f) * a * (1 / a) = fit_m f * x + fit_b f"
    using a by simp
  moreover have "1 / fit_m f * (fit_m f * x + fit_b f) + - fit_b f / fit_m f = x"
    using assms(1) by (simp add: field_simps)
  ultimately show ?thesis
    using assms by (simp add: measured2real_def real2measured_def convertBetween_def CONVERSIONS_N Let_def)
qed

lemma sq_residuals_nonneg: "0 \<le> sq_residuals ps m b"
  unfolding sq_residuals_def by (rule sum_list_nonneg) auto

lemma sq_residuals_zero:
  assumes "sq_residuals ps m b = 0" and "(x, y) \<in> set ps"
  shows "m * x + b = y"
proof -
  have "\<forall>r\<in>set (map (\<lambda>(x, y). (m * x + b - y)\<^sup>2) ps). r = 0"
    using assms(1) unfolding sq_residuals_def
    by (subst sum_list_nonneg_eq_0_iff[symmetric]) auto
  with assms(2) have "(m * x + b - y)\<^sup>2 = 0" by force
  then show ?thesis by simp
qed

lemma sq_residuals_on_line:
  "\<forall>(x, y)\<in>set ps. y = 2 * x + 3 \<Longrightarrow> sq_residuals ps 2 3 = 0"
  unfolding sq_residuals_def by (induction ps) auto

lemma least_squares_on_line:
  assumes line: "\<forall>(x, y)\<in>set ps. y = 2 * x + 3"
    and p: "p \<in> set ps" and q: "q \<in> set ps" and pq: "fst p \<noteq> fst q"
    and least: "\<forall>m' b'. sq_residuals ps m b \<le> sq_residuals ps m' b'"
  shows "m = 2 \<and> b = 3"
proof -
  have "sq_residuals ps m b \<le> 0"
    using least sq_residuals_on_line[OF line] by metis
  with sq_residuals_nonneg[of ps m b] have z: "sq_residuals ps m b = 0" by simp
  obtain x1 y1 x2 y2 where pe: "p = (x1, y1)" and qe: "q = (x2, y2)" by (cases p, cases q) auto
  have e1: "m * x1 + b = 2 * x1 + 3" using sq_residuals_zero[OF z] p line pe by fastforce
  have e2: "m * x2 + b = 2 * x2 + 3" using sq_residuals_zero[OF z] q line qe by fastforce
  from e1 e2 have "(m - 2) * (x1 - x2) = 0" by (simp add: algebra_simps)
  with pq pe qe have m: "m = 2" by simp
  with e1 show ?thesis by simp
qed

lemma two_points: "p \<in> set ps \<Longrightarrow> q \<in> set ps \<Longrightarrow> p \<noteq> q \<Longrightarrow> 2 \<le> length ps"
  by (cases ps; cases "tl ps") auto

text \<open>
  Claim C8 (calibration round trip). The fit: for calibration points that lie on
  the line \<open>y = 2 x + 3\<close> and have two distinct measured values, when
  \<^verbatim>\<open>numpy.polyfit\<close> returns a least-squares line for them, \<^verbatim>\<open>fitLine\<close> yields the
  fit of slope 2 and intercept 3. The round trip: for a fit of non-zero slope, a
  unit \<open>u\<close> of the conversion table and every input \<open>x\<close>, \<^verbatim>\<open>measured2real(x, u)\<close>
  returns a value \<open>y\<close>, and \<^verbatim>\<open>real2measured(y, u)\<close> returns \<open>x\<close>.
\<close>

theorem calibration_round_trip:
  "((\<forall>(x, y)\<in>set ps. y = 2 * x + 3) \<and> p \<in> set ps \<and> q \<in> set ps \<and> fst p \<noteq> fst q \<and>
     np_polyfit (map fst ps) (map snd ps) = Inr (m, b) \<and>
     (\<forall>m' b'. sq_residuals ps m b \<le> sq_residuals ps m' b')
     \<longrightarrow> fitLine np_polyfit ps = Inr (Some \<lparr>fit_m = 2, fit_b = 3\<rparr>)) \<and>
   (fit_m f \<noteq> 0 \<and> u \<in> dom CONVERSIONS
     \<longrightarrow> (\<exists>y. measured2real f x u = Inr y \<and> real2measured f y u = Inr x))"
proof (intro conjI impI)
  assume a: "(\<forall>(x, y)\<in>set ps. y = 2 * x + 3) \<and> p \<in> set ps \<and> q \<in> set ps \<and> fst p \<noteq> fst q \<and>
     np_polyfit (map fst ps) (map snd ps) = Inr (m, b) \<and>
     (\<forall>m' b'. sq_residuals ps m b \<le> sq_residuals ps m' b')"
  then have mb: "m = 2 \<and> b = 3" by (intro least_squares_on_line[of ps p q]) auto
  from a have "p \<noteq> q" by auto
  with a have "2 \<le> length ps" by (intro two_points[of p ps q]) auto
  with a mb show "fitLine np_polyfit ps = Inr (Some \<lparr>fit_m = 2, fit_b = 3\<rparr>)"
    by (simp add: fitLine_def)
next
  assume "fit_m f \<noteq> 0 \<and> u \<in> dom CONVERSIONS"
  then obtain a where "fit_m f \<noteq> 0" "CONVERSIONS u = Some a" by auto
  from round_trip[OF this] show "\<exists>y. measured2real f x u = Inr y \<and> real2measured f y u = Inr x"
    by blast
qed

theorem calibration_round_trip_witness:
  "fitLine (\<lambda>xs ys. Inr (2, 3)) [(0, 3), (1, 5), (4, 11)] = Inr (Some \<lparr>fit_m = 2, fit_b = 3\<rparr>) \<and>
   measured2real \<lparr>fit_m = 2, fit_b = 3\<rparr> 10 ''kg'' = Inr (23 * (101971621298 / 1000000000000)) \<and>
   real2measured \<lparr>fit_m = 2, fit_b = 3\<rparr> (23 * (101971621298 / 1000000000000)) ''kg'' = Inr 10"
proof -
  have z: "sq_residuals [(0, 3), (1, 5), (4, 11)] 2 3 = 0"
    by (simp add: sq_residuals_def)
  have h: "(\<forall>(x, y)\<in>set [(0, 3), (1, 5), (4, 11 :: real)]. y = 2 * x + 3) \<and>
      (0, 3) \<in> set [(0, 3), (1, 5), (4, 11 :: real)] \<and> (1, 5) \<in> set [(0, 3), (1, 5), (4, 11 :: real)] \<and>
      fst (0 :: real, 3 :: real) \<noteq> fst (1 :: real, 5 :: real) \<and>
      (\<lambda>xs ys. Inr (2, 3)) (map fst [(0, 3), (1, 5), (4, 11 :: real)]) (map snd [(0, 3), (1, 5), (4, 11 :: real)])
         = (Inr (2 :: real, 3 :: real) :: error + real \<times> real) \<and>
      (\<forall>m' b'. sq_residuals [(0, 3), (1, 5), (4, 11)] 2 3 \<le> sq_residuals [(0, 3), (1, 5), (4, 11)] m' b')"
    using z by (simp add: sq_residuals_nonneg)
  have k: "(2 :: real) \<noteq> 0 \<and> ''kg'' \<in> dom CONVERSIONS" by (simp add: CONVERSIONS_def)
  from calibration_round_trip [of "[(0, 3), (1, 5), (4, 11)]" "(0, 3)" "(1, 5)" "\<lambda>xs ys. Inr (2, 3)" 2 3
      "\<lparr>fit_m = 2, fit_b = 3\<rparr>" "''kg''" 10] h k
  show ?thesis
    by (simp add: measured2real_def real2measured_def convertBetween_def CONVERSIONS_def)
qed

text \<open>
  Claim C5, as the code has it: \<^verbatim>\<open>fitLine\<close> yields no fit for fewer than two points;
  for two or more points it yields no fit exactly when \<^verbatim>\<open>numpy.polyfit\<close> raises
  \<^verbatim>\<open>ValueError\<close>, and whatever coefficients \<^verbatim>\<open>polyfit\<close> returns become the fit. A
  calibration without fit has \<^verbatim>\<open>hasFit()\<close> false, and a conversion through its
  \<^verbatim>\<open>fit\<close> attribute raises instead of returning a value.
\<close>

theorem fitLine_no_fit:
  "(length ps < 2 \<longrightarrow> fitLine np_polyfit ps = Inr None) \<and>
   (2 \<le> length ps \<longrightarrow>
      (fitLine np_polyfit ps = Inr None \<longleftrightarrow> np_polyfit (map fst ps) (map snd ps) = Inl ValueError) \<and>
      (\<forall>m b. np_polyfit (map fst ps) (map snd ps) = Inr (m, b)
         \<longrightarrow> fitLine np_polyfit ps = Inr (Some \<lparr>fit_m = m, fit_b = b\<rparr>))) \<and>
   (fit c = None \<longrightarrow>
      \<not> hasFit c \<and> calibration_measured2real c x u = Inl AttributeError \<and>
      calibration_real2measured c x u = Inl AttributeError)"
  by (auto simp: fitLine_def hasFit_def calibration_measured2real_def calibration_real2measured_def
      split: sum.splits if_splits)

theorem fitLine_no_fit_witness:
  "fitLine (\<lambda>xs ys. Inl ValueError) [(4, 1)] = Inr None \<and>
   fitLine (\<lambda>xs ys. Inl ValueError) [(0, 1), (0, 2)] = Inr None \<and>
   \<not> hasFit \<lparr>pts = [(4, 1)], fit = None\<rparr> \<and>
   calibration_measured2real \<lparr>pts = [(4, 1)], fit = None\<rparr> 10 ''N'' = Inl AttributeError"
  using fitLine_no_fit [of "[(4, 1)]" "\<lambda>xs ys. Inl ValueError" "\<lparr>pts = [(4, 1)], fit = None\<rparr>" 10 "''N''"]
    fitLine_no_fit [of "[(0, 1), (0, 2)]" "\<lambda>xs ys. Inl ValueError" "\<lparr>pts = [(4, 1)], fit = None\<rparr>" 10 "''N''"]
  by simp

text \<open>Two points sharing the measured value 1. For them \<^verbatim>\<open>numpy.polyfit\<close> returns
  the least-squares coefficients of minimum norm, \<open>(5/4, 5/4)\<close>, with a rank warning,
  which \<^verbatim>\<open>fitLine\<close> ignores: they become the fit, \<^verbatim>\<open>hasFit()\<close> is true and the
  conversions return values.\<close>

theorem fitLine_shared_measured_counterexample:
  "fitLine (\<lambda>xs ys. Inr (5 / 4, 5 / 4)) [(1, 2), (1, 3)]
     = Inr (Some \<lparr>fit_m = 5 / 4, fit_b = 5 / 4\<rparr>) \<and>
   hasFit \<lparr>pts = [(1, 2), (1, 3)], fit = Some \<lparr>fit_m = 5 / 4, fit_b = 5 / 4\<rparr>\<rparr> \<and>
   calibration_measured2real
     \<lparr>pts = [(1, 2), (1, 3)], fit = Some \<lparr>fit_m = 5 / 4, fit_b = 5 / 4\<rparr>\<rparr> 1 ''N'' = Inr (5 / 2)"
  by (simp add: fitLine_def hasFit_def calibration_measured2real_def measured2real_def
        convertBetween_def CONVERSIONS_def)

section \<open>Downsampling\<close>

lemma round_ndigits_mono: "x \<le> y \<Longrightarrow> round_ndigits x n \<le> round_ndigits y n"
  unfolding round_ndigits_def
  by (intro divide_right_mono) (auto intro!: py_round_mono mult_right_mono)

lemma round_value_mono:
  assumes "0 < h" and "x \<le> y"
  shows "round_value x h \<le> round_value y h"
proof -
  have "x / h \<le> y / h" using assms by (simp add: divide_right_mono)
  then have "py_round (x / h) \<le> py_round (y / h)" by (rule py_round_mono)
  then have "h * of_int (py_round (x / h)) \<le> h * of_int (py_round (y / h))"
    using assms(1) by simp
  then show ?thesis unfolding round_value_def by (rule round_ndigits_mono)
qed

subsection \<open>The dict of rounded times\<close>

lemma dict_add_keys: "fst ` set (dict_add d k v) = insert k (fst ` set d)"
  by (induction d k v rule: dict_add.induct) auto

lemma dict_add_distinct: "distinct (map fst d) \<Longrightarrow> distinct (map fst (dict_add d k v))"
  by (induction d k v rule: dict_add.induct) (auto simp: dict_add_keys)

lemma dict_add_map_of:
  "map_of (dict_add d k v) =
     (map_of d)(k \<mapsto> (case map_of d k of None \<Rightarrow> [] | Some vs \<Rightarrow> vs) @ [v])"
  by (induction d k v rule: dict_add.induct) (auto simp: fun_eq_iff)

lemma vals_at_Nil [simp]: "vals_at [] h k = []"
  by (simp add: vals_at_def assigned_def)

lemma vals_at_Cons:
  "vals_at ((t, v) # rs) h k = (if round_value t h = k then v # vals_at rs h k else vals_at rs h k)"
  by (simp add: vals_at_def assigned_def)

lemma vals_at_nonempty_iff:
  "vals_at rs h k \<noteq> [] \<longleftrightarrow> k \<in> (\<lambda>p. round_value (fst p) h) ` set rs"
  by (auto simp: vals_at_def assigned_def filter_empty_conv image_iff case_prod_unfold)

lemma group_readings_map_of:
  assumes "h \<noteq> 0"
  shows "\<exists>d'. group_readings d rs h = Inr d' \<and>
           (distinct (map fst d) \<longrightarrow> distinct (map fst d')) \<and>
           (\<forall>k. map_of d' k =
              (if map_of d k = None \<and> vals_at rs h k = [] then None
               else Some ((case map_of d k of None \<Rightarrow> [] | Some vs \<Rightarrow> vs) @ vals_at rs h k)))"
proof (induction rs arbitrary: d)
  case Nil
  show ?case by (auto split: option.splits)
next
  case (Cons r rs)
  obtain t v where r: "r = (t, v)" by (cases r)
  define d1 where "d1 = dict_add d (round_value t h) v"
  from Cons.IH[of d1] obtain d' where d': "group_readings d1 rs h = Inr d'"
    "distinct (map fst d1) \<longrightarrow> distinct (map fst d')"
    "\<forall>k. map_of d' k =
       (if map_of d1 k = None \<and> vals_at rs h k = [] then None
        else Some ((case map_of d1 k of None \<Rightarrow> [] | Some vs \<Rightarrow> vs) @ vals_at rs h k))"
    by blast
  have g: "group_readings d (r # rs) h = Inr d'"
    using assms d'(1) by (simp add: r round_base_def d1_def)
  have dist: "distinct (map fst d) \<longrightarrow> distinct (map fst d')"
    using d'(2) by (simp add: d1_def dict_add_distinct)
  have m: "map_of d' k =
      (if map_of d k = None \<and> vals_at (r # rs) h k = [] then None
       else Some ((case map_of d k of None \<Rightarrow> [] | Some vs \<Rightarrow> vs) @ vals_at (r # rs) h k))" for k
    using d'(3)[rule_format, of k]
    by (auto simp: d1_def dict_add_map_of r vals_at_Cons split: option.splits)
  from g dist m show ?case by blast
qed

lemma group_readings_fresh:
  assumes "h \<noteq> 0"
  shows "\<exists>d'. group_readings [] rs h = Inr d' \<and> distinct (map fst d') \<and>
           (\<forall>k vs. (k, vs) \<in> set d' \<longleftrightarrow> vs = vals_at rs h k \<and> vs \<noteq> [])"
proof -
  from group_readings_map_of[OF assms, of "[]" rs] obtain d' where
    d': "group_readings [] rs h = Inr d'" "distinct (map fst d')"
     "\<forall>k. map_of d' k = (if vals_at rs h k = [] then None else Some (vals_at rs h k))"
    by auto
  have "(k, vs) \<in> set d' \<longleftrightarrow> vs = vals_at rs h k \<and> vs \<noteq> []" for k vs
  proof -
    have "(k, vs) \<in> set d' \<longleftrightarrow> map_of d' k = Some vs"
      using d'(2) by (simp add: map_of_eq_Some_iff)
    then show ?thesis using d'(3)[rule_format, of k] by auto
  qed
  with d' show ?thesis by blast
qed

lemma sorted_distinct_strict:
  "sorted (xs :: real list) \<Longrightarrow> distinct xs \<Longrightarrow> sorted_wrt (<) xs"
  by (simp add: strict_sorted_iff)

text \<open>What \<^verbatim>\<open>_downSampleReadings\<close> returns for a non-zero interval: the buckets of
  the rounded times that occur, by ascending time.\<close>

lemma downSampleReadings_char:
  assumes "h \<noteq> 0"
  shows "\<exists>ds. downSampleReadings rs h = Inr ds \<and> sorted_wrt (<) (map fst ds) \<and>
           set ds = {bucket_at rs h k | k. vals_at rs h k \<noteq> []}"
proof -
  from group_readings_fresh[OF assms, of rs] obtain d where
    d: "group_readings [] rs h = Inr d" "distinct (map fst d)"
     "\<forall>k vs. (k, vs) \<in> set d \<longleftrightarrow> vs = vals_at rs h k \<and> vs \<noteq> []"
    by blast
  define f :: "real \<times> real list \<Rightarrow> bucket" where "f = (\<lambda>(rt, vals). (rt, avg vals, length vals))"
  define ds where "ds = sort_key fst (map f d)"
  have res: "downSampleReadings rs h = Inr ds"
    using d(1) by (simp add: downSampleReadings_def ds_def f_def)
  have fk: "fst \<circ> f = fst" by (auto simp: f_def)
  have "distinct (map fst (map f d))" using d(2) by (simp add: fk)
  then have "distinct (map fst ds)"
    unfolding ds_def by (metis distinct_map distinct_sort set_sort)
  moreover have "sorted (map fst ds)" by (simp add: ds_def)
  ultimately have srt: "sorted_wrt (<) (map fst ds)" by (intro sorted_distinct_strict)
  have "set ds = f ` set d" by (simp add: ds_def)
  also have "\<dots> = {bucket_at rs h k | k. vals_at rs h k \<noteq> []}"
  proof (intro set_eqI iffI)
    fix b assume "b \<in> f ` set d"
    then obtain k vs where "(k, vs) \<in> set d" "b = f (k, vs)" by auto
    with d(3) show "b \<in> {bucket_at rs h k | k. vals_at rs h k \<noteq> []}"
      by (auto simp: f_def bucket_at_def)
  next
    fix b assume "b \<in> {bucket_at rs h k | k. vals_at rs h k \<noteq> []}"
    then obtain k where k: "vals_at rs h k \<noteq> []" "b = bucket_at rs h k" by auto
    with d(3) have "(k, vals_at rs h k) \<in> set d" by simp
    then have "f (k, vals_at rs h k) \<in> f ` set d" by (rule imageI)
    with k show "b \<in> f ` set d" by (simp add: f_def bucket_at_def)
  qed
  finally show ?thesis using res srt by blast
qed

text \<open>
  Claim C2, as the code has it: for every sample rate \<open>r > 0\<close> and every list of
  readings, \<^verbatim>\<open>_downSampleReadings(readings, 1/r)\<close> returns triples in strictly
  ascending time order. Every reading has a bucket at its rounded time, which is the
  multiple \<open>k\<close> of the interval (rounded to 100 decimal places) for the integer
  \<open>k\<close> nearest to the quotient of the reading's time by the interval, a tie going
  to the even integer: the quotient differs from \<open>k\<close> by at most 1/2, and by 1/2
  at a tie. Each bucket's count is the number of readings assigned to it, none being
  empty, and its value their arithmetic mean.
\<close>

theorem downSampleReadings_correct:
  assumes "0 < r"
  shows "\<exists>ds. downSampleReadings readings (1 / r) = Inr ds \<and>
     sorted_wrt (<) (map fst ds) \<and>
     (\<forall>(t, v)\<in>set readings.
        (\<exists>m n. (round_value t (1 / r), m, n) \<in> set ds) \<and>
        round_value t (1 / r) = round_ndigits (1 / r * of_int (py_round (t / (1 / r)))) 100 \<and>
        \<bar>t / (1 / r) - of_int (py_round (t / (1 / r)))\<bar> \<le> 1 / 2) \<and>
     (\<forall>(rt, m, n)\<in>set ds.
        assigned readings (1 / r) rt \<noteq> [] \<and>
        n = length (assigned readings (1 / r) rt) \<and>
        m = sum_list (map snd (assigned readings (1 / r) rt)) / real n)"
proof -
  have h: "0 < 1 / r" using assms by simp
  then have "1 / r \<noteq> 0" by simp
  from downSampleReadings_char[OF this, of readings] obtain ds where
    ds: "downSampleReadings readings (1 / r) = Inr ds" "sorted_wrt (<) (map fst ds)"
      "set ds = {bucket_at readings (1 / r) k | k. vals_at readings (1 / r) k \<noteq> []}"
    by blast
  have a: "(\<exists>m n. (round_value t (1 / r), m, n) \<in> set ds) \<and>
        round_value t (1 / r) = round_ndigits (1 / r * of_int (py_round (t / (1 / r)))) 100 \<and>
        \<bar>t / (1 / r) - of_int (py_round (t / (1 / r)))\<bar> \<le> 1 / 2"
    if "(t, v) \<in> set readings" for t v
  proof -
    have "round_value t (1 / r) \<in> (\<lambda>p. round_value (fst p) (1 / r)) ` set readings"
      using that by force
    then have "vals_at readings (1 / r) (round_value t (1 / r)) \<noteq> []"
      by (simp add: vals_at_nonempty_iff)
    then have "bucket_at readings (1 / r) (round_value t (1 / r)) \<in> set ds"
      unfolding ds(3) by blast
    then have "\<exists>m n. (round_value t (1 / r), m, n) \<in> set ds"
      unfolding bucket_at_def by blast
    moreover have "round_value t (1 / r) = round_ndigits (1 / r * of_int (py_round (t / (1 / r)))) 100"
      by (simp only: round_value_def)
    moreover have "\<bar>t / (1 / r) - of_int (py_round (t / (1 / r)))\<bar> \<le> 1 / 2"
      by (rule py_round_le_half)
    ultimately show ?thesis by blast
  qed
  have b: "assigned readings (1 / r) rt \<noteq> [] \<and>
        n = length (assigned readings (1 / r) rt) \<and>
        m = sum_list (map snd (assigned readings (1 / r) rt)) / real n"
    if "(rt, m, n) \<in> set ds" for rt m n
  proof -
    from that obtain k where "vals_at readings (1 / r) k \<noteq> []"
      "(rt, m, n) = bucket_at readings (1 / r) k"
      unfolding ds(3) by blast
    then show ?thesis by (auto simp: bucket_at_def vals_at_def avg_def)
  qed
  from ds(1,2) a b show ?thesis by blast
qed

theorem downSampleReadings_correct_witness:
  "(0 :: real) < 5 \<and>
   downSampleReadings [(1 / 100, 4), (3 / 100, 6), (1 / 25, 8), (21 / 100, 1)] (1 / 5)
     = Inr [(0, 6, 3), (1 / 5, 1, 1)]"
proof -
  have p: "(0 :: real) < 5" by simp
  from downSampleReadings_correct [OF p, of "[(1 / 100, 4), (3 / 100, 6), (1 / 25, 8), (21 / 100, 1)]"]
  obtain ds where
    "downSampleReadings [(1 / 100, 4), (3 / 100, 6), (1 / 25, 8), (21 / 100, 1)] (1 / 5) = Inr ds"
    by blast
  moreover have
    "downSampleReadings [(1 / 100, 4), (3 / 100, 6), (1 / 25, 8), (21 / 100, 1)] (1 / 5)
       = Inr [(0, 6, 3), (1 / 5, 1, 1)]"
    by (simp add: downSampleReadings_def round_base_def round_value_def round_ndigits_def
          py_round_def Let_def avg_def)
  ultimately show ?thesis by simp
qed

text \<open>A reading half an interval after a grid time is rounded to it (a tie goes to the
  even multiple): its distance to the bucket time is \<open>1/(2r)\<close>, not less.\<close>

theorem downSampleReadings_tie_counterexample:
  "downSampleReadings [(1 / 2, 4)] (1 / 1) = Inr [(0, 4, 1)] \<and>
   \<not> \<bar>1 / 2 - 0\<bar> < 1 / (2 * 1 :: real)"
  by (simp add: downSampleReadings_def round_base_def round_value_def round_ndigits_def
        py_round_def Let_def avg_def)

section \<open>The Series Buffer\<close>

subsection \<open>The deque\<close>

lemma drop_drop_append:
  "drop (length (drop (length ys - n) ys @ xs) - n) (drop (length ys - n) ys @ xs)
     = drop (length (ys @ xs) - n) (ys @ xs)"
proof (cases "n \<le> length ys")
  case True
  then have "length (ys @ xs) - n = (length ys - n) + length xs" by simp
  then have "drop (length (ys @ xs) - n) (ys @ xs) = drop (length xs) (drop (length ys - n) (ys @ xs))"
    by (simp add: add.commute)
  with True show ?thesis by simp
next
  case False
  then show ?thesis by simp
qed

lemma deque_append_eq:
  "length d \<le> n \<Longrightarrow> deque_append n d x = drop (length (d @ [x]) - n) (d @ [x])"
  by (cases d) (auto simp: deque_append_def Let_def Suc_diff_le)

lemma deque_extend_eq:
  "length d \<le> n \<Longrightarrow> deque_extend n d xs = drop (length (d @ xs) - n) (d @ xs)"
proof (induction xs arbitrary: d)
  case Nil
  then show ?case by (simp add: deque_extend_def)
next
  case (Cons x xs)
  define d1 where "d1 = drop (length (d @ [x]) - n) (d @ [x])"
  have l1: "length d1 \<le> n" using Cons.prems by (simp add: d1_def)
  have "deque_extend n d (x # xs) = deque_extend n d1 xs"
    using Cons.prems by (simp add: deque_extend_def deque_append_eq d1_def)
  also have "\<dots> = drop (length (d1 @ xs) - n) (d1 @ xs)" using l1 by (rule Cons.IH)
  also have "\<dots> = drop (length ((d @ [x]) @ xs) - n) ((d @ [x]) @ xs)"
    unfolding d1_def by (rule drop_drop_append)
  finally show ?case by simp
qed

lemma lcc_length_pos: "0 < lcc_length"
  by (simp add: lcc_length_def)

lemma drop_tail_last:
  "xs \<noteq> [] \<Longrightarrow> 0 < n \<Longrightarrow> drop (length xs - n) xs \<noteq> [] \<and> last (drop (length xs - n) xs) = last xs"
  by (cases xs rule: rev_cases) auto

lemma list_update_last:
  "xs \<noteq> [] \<Longrightarrow> xs[length xs - Suc 0 := x] = butlast xs @ [x]"
  by (cases xs rule: rev_cases) (auto simp: list_update_append)

subsection \<open>One ingest\<close>

lemma addReadings_unfold:
  assumes "sampleRate s \<noteq> 0" and "rs \<noteq> []"
    and "downSampleReadings rs (1 / sampleRate s) = Inr ((t, v, n) # rest)"
  shows "addReadings s rs =
     Inr (if data s \<noteq> [] \<and> \<bar>t - fst (last (data s))\<bar> < 1 / sampleRate s
          then s\<lparr>data := deque_extend lcc_length
                     (butlast (data s) @
                        [(max t (fst (last (data s))),
                          (snd (last (data s)) * real (numSamplesLastReading s) + v * real n)
                             / real (numSamplesLastReading s + n))])
                     (map (\<lambda>(t, v, n). (t, v)) rest),
                 numSamplesLastReading := numSamplesLastReading s + n\<rparr>
          else s\<lparr>data := deque_extend lcc_length (data s)
                     (map (\<lambda>(t, v, n). (t, v)) ((t, v, n) # rest)),
                 numSamplesLastReading := snd (snd (last ((t, v, n) # rest)))\<rparr>)"
  using assms
  by (simp add: addReadings_def Let_def list_update_last case_prod_unfold del: last.simps)

lemma downSampleReadings_nonempty:
  assumes "h \<noteq> 0" and "rs \<noteq> []" and "downSampleReadings rs h = Inr ds"
  shows "ds \<noteq> []"
proof -
  from downSampleReadings_char[OF assms(1), of rs] assms(3)
  have s: "set ds = {bucket_at rs h k | k. vals_at rs h k \<noteq> []}" by auto
  obtain p where "p \<in> set rs" using assms(2) by (cases rs) auto
  then have "vals_at rs h (round_value (fst p) h) \<noteq> []"
    by (auto simp: vals_at_nonempty_iff)
  with s have "bucket_at rs h (round_value (fst p) h) \<in> set ds" by blast
  then show ?thesis by auto
qed

lemma downSampleReadings_keys:
  assumes "h \<noteq> 0" and "downSampleReadings rs h = Inr ds"
  shows "fst ` set ds = (\<lambda>p. round_value (fst p) h) ` set rs"
proof -
  from downSampleReadings_char[OF assms(1), of rs] assms(2)
  have s: "set ds = {bucket_at rs h k | k. vals_at rs h k \<noteq> []}" by auto
  have "fst ` set ds = {k. vals_at rs h k \<noteq> []}"
    unfolding s by (auto simp: bucket_at_def image_iff)
  then show ?thesis by (auto simp: vals_at_nonempty_iff)
qed


lemma last_strip: "ds \<noteq> [] \<Longrightarrow> fst (last (map (\<lambda>(t, v, n). (t, v)) ds)) = fst (last ds)"
  by (induction ds) auto

lemma sorted_wrt_butlast_last:
  "xs \<noteq> [] \<Longrightarrow> sorted_wrt (<) (xs :: real list) \<Longrightarrow>
   sorted_wrt (<) (butlast xs) \<and> (\<forall>x\<in>set (butlast xs). x < last xs) \<and> (\<forall>x\<in>set xs. x \<le> last xs)"
  by (cases xs rule: rev_cases) (auto simp: sorted_wrt_append less_imp_le)

text \<open>One ingest keeps the buffer times strictly ascending when no new reading rounds
  below the last buffer time, and then the last buffer time is the last new bucket
  time.\<close>

lemma addReadings_preserves:
  assumes r: "0 < sampleRate s"
    and srt: "sorted_wrt (<) (map fst (data s))"
    and len: "length (data s) \<le> lcc_length"
    and lo: "data s \<noteq> [] \<longrightarrow>
       (\<forall>x\<in>set rs. fst (last (data s)) \<le> round_value (fst x) (1 / sampleRate s))"
  shows "\<exists>s'. addReadings s rs = Inr s' \<and> sampleRate s' = sampleRate s \<and>
     sorted_wrt (<) (map fst (data s')) \<and> length (data s') \<le> lcc_length \<and>
     (\<forall>\<tau>. (\<forall>x\<in>set rs. fst x \<le> \<tau>) \<and>
            (data s \<noteq> [] \<longrightarrow> fst (last (data s)) \<le> round_value \<tau> (1 / sampleRate s))
        \<longrightarrow> data s' \<noteq> [] \<longrightarrow> fst (last (data s')) \<le> round_value \<tau> (1 / sampleRate s))"
proof (cases "rs = []")
  case True
  then have "addReadings s rs = Inr s" by (simp add: addReadings_def)
  with srt len show ?thesis by auto
next
  case False
  define h where "h = 1 / sampleRate s"
  have h: "0 < h" using r by (simp add: h_def)
  then have h0: "h \<noteq> 0" by simp
  from downSampleReadings_char[OF h0, of rs] obtain ds where
    ds: "downSampleReadings rs h = Inr ds" "sorted_wrt (<) (map fst ds)" by blast
  have ne: "ds \<noteq> []" using h0 False ds(1) by (rule downSampleReadings_nonempty)
  have keys: "fst ` set ds = (\<lambda>p. round_value (fst p) h) ` set rs"
    using h0 ds(1) by (rule downSampleReadings_keys)
  obtain t v n rest where dse: "ds = (t, v, n) # rest" using ne by (cases ds) auto
  define d where "d = data s"
  define L where "L = fst (last d)"
  define a where "a = (snd (last d) * real (numSamplesLastReading s) + v * real n)
                             / real (numSamplesLastReading s + n)"
  define merge where "merge \<longleftrightarrow> d \<noteq> [] \<and> \<bar>t - L\<bar> < h"
  define d0 where "d0 = (if merge then butlast d @ [(max t L, a)] else d)"
  define ys where "ys = (if merge then map (\<lambda>(t, v, n). (t, v)) rest else map (\<lambda>(t, v, n). (t, v)) ds)"
  define s' where "s' = s\<lparr>data := deque_extend lcc_length d0 ys,
      numSamplesLastReading := (if merge then numSamplesLastReading s + n else snd (snd (last ds)))\<rparr>"
  have res: "addReadings s rs = Inr s'"
    using addReadings_unfold[of s rs t v n rest] r False ds(1)
    by (simp add: h_def dse s'_def d0_def ys_def merge_def d_def L_def a_def)
  have l0: "length d0 \<le> lcc_length" using len by (auto simp: d0_def d_def merge_def)
  have dat: "data s' = drop (length (d0 @ ys) - lcc_length) (d0 @ ys)"
    using deque_extend_eq[OF l0] by (simp add: s'_def)
  have tk: "t \<in> (\<lambda>p. round_value (fst p) h) ` set rs"
    using keys by (auto simp: dse)
  have Lt: "L \<le> t" if "d \<noteq> []"
    using lo that tk by (auto simp: d_def L_def h_def)
  have rest_gt: "\<forall>k\<in>set (map fst rest). t < k" and rest_srt: "sorted_wrt (<) (map fst rest)"
    using ds(2) by (auto simp: dse)
  have X_srt: "sorted_wrt (<) (map fst (d0 @ ys))"
  proof (cases merge)
    case True
    then have dne: "d \<noteq> []" by (simp add: merge_def)
    have mx: "max t L = t" using Lt[OF dne] by simp
    have dn: "map fst d \<noteq> []" using dne by simp
    from sorted_wrt_butlast_last[OF dn] srt
    have b: "sorted_wrt (<) (butlast (map fst d))" "\<forall>x\<in>set (butlast (map fst d)). x < last (map fst d)"
      by (simp_all add: d_def)
    have lm: "last (map fst d) = L" using dne by (simp add: L_def last_map)
    have "map fst (d0 @ ys) = butlast (map fst d) @ t # map fst rest"
      using True by (simp add: d0_def ys_def mx map_butlast case_prod_unfold)
    moreover have "sorted_wrt (<) (butlast (map fst d) @ t # map fst rest)"
      using b lm Lt[OF dne] rest_gt rest_srt
      by (fastforce simp: sorted_wrt_append)
    ultimately show ?thesis by simp
  next
    case nm: False
    have e: "map fst (d0 @ ys) = map fst d @ map fst ds"
      using nm by (simp add: d0_def ys_def case_prod_unfold)
    show ?thesis
    proof (cases "d = []")
      case True
      with e ds(2) show ?thesis by simp
    next
      case dne: False
      with nm have "\<not> \<bar>t - L\<bar> < h" by (simp add: merge_def)
      with Lt[OF dne] h have lt: "L < t" by linarith
      have dn: "map fst d \<noteq> []" using dne by simp
      from sorted_wrt_butlast_last[OF dn] srt
      have "\<forall>x\<in>set (map fst d). x \<le> last (map fst d)" by (simp add: d_def)
      moreover have "last (map fst d) = L" using dne by (simp add: L_def last_map)
      ultimately have dl: "\<forall>x\<in>set (map fst d). x \<le> L" by simp
      have "\<forall>k\<in>set (map fst ds). t \<le> k" using rest_gt by (auto simp: dse)
      with dl lt have "\<forall>x\<in>set (map fst d). \<forall>k\<in>set (map fst ds). x < k" by fastforce
      with srt ds(2) show ?thesis unfolding e by (simp add: sorted_wrt_append d_def)
    qed
  qed
  have X_last: "d0 @ ys \<noteq> [] \<and> fst (last (d0 @ ys)) = fst (last ds)"
  proof (cases merge)
    case True
    then have dne: "d \<noteq> []" by (simp add: merge_def)
    have mx: "max t L = t" using Lt[OF dne] by simp
    show ?thesis
    proof (cases "rest = []")
      case True
      with \<open>merge\<close> show ?thesis by (simp add: d0_def ys_def mx dse)
    next
      case False
      with \<open>merge\<close> last_strip[OF False] show ?thesis by (simp add: d0_def ys_def dse)
    qed
  next
    case False
    with last_strip[OF ne] ne show ?thesis by (simp add: d0_def ys_def)
  qed
  have s_srt: "sorted_wrt (<) (map fst (data s'))"
    using sorted_wrt_drop[OF X_srt, of "length (d0 @ ys) - lcc_length"]
    by (simp only: dat drop_map)
  have s_len: "length (data s') \<le> lcc_length" unfolding dat by simp
  have s_last: "data s' \<noteq> [] \<and> fst (last (data s')) = fst (last ds)"
    using drop_tail_last[OF conjunct1[OF X_last] lcc_length_pos] X_last unfolding dat by simp
  have "fst (last ds) \<in> fst ` set ds" using ne by simp
  with keys obtain x where x: "x \<in> set rs" "fst (last ds) = round_value (fst x) h" by auto
  have fut: "fst (last (data s')) \<le> round_value \<tau> h" if "\<forall>x\<in>set rs. fst x \<le> \<tau>" for \<tau>
  proof -
    from that x(1) have "fst x \<le> \<tau>" by simp
    then have "round_value (fst x) h \<le> round_value \<tau> h" using h by (intro round_value_mono)
    with s_last x(2) show ?thesis by simp
  qed
  have "sampleRate s' = sampleRate s" by (simp add: s'_def)
  with res s_srt s_len fut show ?thesis unfolding h_def by blast
qed


subsection \<open>Sequences of ingests and clears\<close>

lemma time_ordered_Cons:
  "time_ordered (x # xs) \<longleftrightarrow>
     (\<forall>y\<in>set xs. \<forall>a\<in>set (op_times x). \<forall>b\<in>set (op_times y). a \<le> b) \<and> time_ordered xs"
  by (auto simp: time_ordered_def list_all_iff)

lemma run_sorted:
  assumes "0 < sampleRate s" and "sorted_wrt (<) (map fst (data s))"
    and "length (data s) \<le> lcc_length" and "time_ordered ops"
    and "data s \<noteq> [] \<longrightarrow>
      (\<forall>y\<in>set ops. \<forall>\<tau>\<in>set (op_times y). fst (last (data s)) \<le> round_value \<tau> (1 / sampleRate s))"
  shows "\<exists>s'. run s ops = Inr s' \<and> sorted_wrt (<) (map fst (data s'))"
  using assms
proof (induction ops arbitrary: s)
  case Nil
  then show ?case by simp
next
  case (Cons x ops)
  from Cons.prems(4) have ord: "time_ordered ops"
    and later: "\<forall>y\<in>set ops. \<forall>a\<in>set (op_times x). \<forall>b\<in>set (op_times y). a \<le> b"
    by (simp_all add: time_ordered_Cons)
  show ?case
  proof (cases x)
    case Clear
    have "\<exists>s'. run (clear s) ops = Inr s' \<and> sorted_wrt (<) (map fst (data s'))"
      using Cons.prems(1) ord by (intro Cons.IH) (simp_all add: clear_def)
    with Clear show ?thesis by simp
  next
    case (AddReadings rs)
    have lo: "data s \<noteq> [] \<longrightarrow>
       (\<forall>p\<in>set rs. fst (last (data s)) \<le> round_value (fst p) (1 / sampleRate s))"
      using Cons.prems(5) by (simp add: AddReadings)
    from addReadings_preserves[OF Cons.prems(1,2,3) lo] obtain s1 where
      s1: "addReadings s rs = Inr s1" "sampleRate s1 = sampleRate s"
        "sorted_wrt (<) (map fst (data s1))" "length (data s1) \<le> lcc_length"
        "\<forall>\<tau>. (\<forall>x\<in>set rs. fst x \<le> \<tau>) \<and>
            (data s \<noteq> [] \<longrightarrow> fst (last (data s)) \<le> round_value \<tau> (1 / sampleRate s))
          \<longrightarrow> data s1 \<noteq> [] \<longrightarrow> fst (last (data s1)) \<le> round_value \<tau> (1 / sampleRate s)"
      by blast
    have fut: "data s1 \<noteq> [] \<longrightarrow>
      (\<forall>y\<in>set ops. \<forall>\<tau>\<in>set (op_times y). fst (last (data s1)) \<le> round_value \<tau> (1 / sampleRate s1))"
    proof (intro impI ballI)
      fix y \<tau> assume ne: "data s1 \<noteq> []" and y: "y \<in> set ops" and t: "\<tau> \<in> set (op_times y)"
      have "\<forall>x\<in>set rs. fst x \<le> \<tau>" using later y t by (auto simp: AddReadings)
      moreover have "data s \<noteq> [] \<longrightarrow> fst (last (data s)) \<le> round_value \<tau> (1 / sampleRate s)"
        using Cons.prems(5) y t by simp
      ultimately show "fst (last (data s1)) \<le> round_value \<tau> (1 / sampleRate s1)"
        using s1(5) ne by (simp add: s1(2))
    qed
    have "\<exists>s'. run s1 ops = Inr s' \<and> sorted_wrt (<) (map fst (data s'))"
      using Cons.prems(1) s1(2,3,4) ord fut by (intro Cons.IH) simp_all
    with s1(1) AddReadings show ?thesis by simp
  qed
qed

text \<open>
  Claim C7 (Series Buffer time invariant): started on an empty buffer with a positive
  sample rate, every sequence of \<^verbatim>\<open>addReadings\<close> and \<^verbatim>\<open>clear\<close> operations whose
  batches arrive in non-decreasing time order runs without error and leaves a buffer
  whose times are strictly increasing, so no two entries share a time; the overlap
  merge of a batch's first bucket with the last entry is one of the steps covered.
\<close>

theorem buffer_times_strictly_increasing:
  assumes "0 < sampleRate s" and "data s = []" and "time_ordered ops"
  shows "\<exists>s'. run s ops = Inr s' \<and> sorted_wrt (<) (map fst (data s')) \<and>
           distinct (map fst (data s'))"
proof -
  from run_sorted[of s ops] assms obtain s' where
    "run s ops = Inr s'" "sorted_wrt (<) (map fst (data s'))" by auto
  then show ?thesis by (auto simp: strict_sorted_iff)
qed

lemmas ingest_eval =
  addReadings_def downSampleReadings_def round_base_def round_value_def round_ndigits_def
  py_round_def Let_def avg_def deque_extend_def deque_append_def lcc_length_def init_lcc_def
  clear_def

theorem buffer_times_strictly_increasing_witness:
  "run (init_lcc 5 9600)
     [AddReadings [(0, 4)], AddReadings [(1 / 100, 6), (1 / 5, 8)], Clear, AddReadings [(3 / 10, 1)]]
     = Inr ((init_lcc 5 9600)\<lparr>data := [(2 / 5, 1)], numSamplesLastReading := 1\<rparr>) \<and>
   run (init_lcc 5 9600) [AddReadings [(0, 4)], AddReadings [(1 / 100, 6), (1 / 5, 8)]]
     = Inr ((init_lcc 5 9600)\<lparr>data := [(0, 5), (1 / 5, 8)], numSamplesLastReading := 2\<rparr>)"
proof -
  have "0 < sampleRate (init_lcc 5 9600)" "data (init_lcc 5 9600) = []"
    by (simp_all add: init_lcc_def)
  moreover have "time_ordered
     [AddReadings [(0, 4)], AddReadings [(1 / 100, 6), (1 / 5, 8)], Clear, AddReadings [(3 / 10, 1)]]"
    by (simp add: time_ordered_def)
  ultimately obtain s' where "run (init_lcc 5 9600)
     [AddReadings [(0, 4)], AddReadings [(1 / 100, 6), (1 / 5, 8)], Clear, AddReadings [(3 / 10, 1)]] = Inr s'"
    using buffer_times_strictly_increasing by blast
  moreover have "run (init_lcc 5 9600)
     [AddReadings [(0, 4)], AddReadings [(1 / 100, 6), (1 / 5, 8)], Clear, AddReadings [(3 / 10, 1)]]
     = Inr ((init_lcc 5 9600)\<lparr>data := [(2 / 5, 1)], numSamplesLastReading := 1\<rparr>)"
    by (simp add: ingest_eval)
  moreover have "run (init_lcc 5 9600) [AddReadings [(0, 4)], AddReadings [(1 / 100, 6), (1 / 5, 8)]]
     = Inr ((init_lcc 5 9600)\<lparr>data := [(0, 5), (1 / 5, 8)], numSamplesLastReading := 2\<rparr>)"
    by (simp add: ingest_eval)
  ultimately show ?thesis by simp
qed

text \<open>
  Claim C3 (run state), at an ingest whose first bucket overlaps the last buffer entry
  while the batch has a further bucket: the buffer ends with the entry
  \<open>(1/5, 8)\<close>, the average of one reading, and \<^verbatim>\<open>numSamplesLastReading\<close> is 3, the
  count of the merged entry before it.
\<close>

theorem numSamplesLastReading_after_merge:
  "run (init_lcc 5 9600) [AddReadings [(0, 4)], AddReadings [(1 / 100, 6), (1 / 50, 7), (1 / 5, 8)]]
     = Inr ((init_lcc 5 9600)\<lparr>data := [(0, 17 / 3), (1 / 5, 8)], numSamplesLastReading := 3\<rparr>) \<and>
   downSampleReadings [(1 / 100, 6), (1 / 50, 7), (1 / 5, 8)] (1 / 5)
     = Inr [(0, 13 / 2, 2), (1 / 5, 8, 1)]"
  by (simp add: ingest_eval)

subsection \<open>Splitting a batch\<close>

text \<open>
  Claim C1 (batch-split invariance of ingest), at 3 Hz on an empty buffer, for the
  readings at 1 s and 4/3 s, which are contiguous in time and fall into two different
  buckets, less than a sample interval apart once rounded: ingested in one call they
  are two Series Buffer entries; ingested as two consecutive batches, the overlap
  test \<^verbatim>\<open>fabs(t - lastTime) < sampleInterval\<close> takes the second bucket for the
  first one and merges them, and the buffer holds one entry.
\<close>

theorem batch_split_merges_adjacent_buckets:
  "run (init_lcc 3 9600) [AddReadings [(1, 4)], AddReadings [(4 / 3, 6)]]
     = Inr ((init_lcc 3 9600)\<lparr>data := [(round_value (4 / 3) (1 / 3), 5)],
              numSamplesLastReading := 2\<rparr>) \<and>
   run (init_lcc 3 9600) [AddReadings ([(1, 4)] @ [(4 / 3, 6)])]
     = Inr ((init_lcc 3 9600)\<lparr>data := [(1, 4), (round_value (4 / 3) (1 / 3), 6)],
              numSamplesLastReading := 1\<rparr>) \<and>
   downSampleReadings ([(1, 4)] @ [(4 / 3, 6)]) (1 / 3)
     = Inr [(1, 4, 1), (round_value (4 / 3) (1 / 3), 6, 1)] \<and>
   round_value 1 (1 / 3) \<noteq> round_value (4 / 3) (1 / 3) \<and>
   \<bar>round_value (4 / 3) (1 / 3) - round_value 1 (1 / 3)\<bar> < 1 / 3"
  by (simp add: ingest_eval)

end
